theory Spec2Isabelle
  imports Main
begin

section \<open>Data model (convex/schema.ts)\<close>

text \<open>
  The tables \<open>savedAccounts\<close> and \<open>users\<close> of the schema. A document carries the
  system field \<open>_id\<close> (here \<open>sa_id\<close>, \<open>user_id\<close>); the database hands out a fresh
  identifier at every insert, modelled as a counter. A table is the list of its documents
  in the order they were inserted, which is the order a query without an index walks
  them (ascending \<open>_creationTime\<close>). An optional field (\<open>v.optional\<close>) is an \<open>option\<close>.
  \<open>lastUsed\<close> is only ever written from \<open>Date.now()\<close>, an integer number of
  milliseconds.
\<close>

record prefs =
  theme :: "string option"
  notifications :: "bool option"
  sound :: "bool option"

record savedAccount =
  sa_id :: nat
  deviceId :: string
  username :: string
  color :: string
  status :: string
  avatar :: "string option"
  preferences :: prefs
  lastUsed :: int

record user =
  user_id :: nat
  user_username :: string
  user_color :: string
  user_status :: string
  user_avatar :: "string option"
  user_preferences :: prefs
  lastSeen :: "int option"
  isOnline :: "bool option"
  lastActivity :: "int option"

record store =
  savedAccounts :: "savedAccount list"
  users :: "user list"
  nextId :: nat

definition empty_store :: store where
  "empty_store = \<lparr>savedAccounts = [], users = [], nextId = 0\<rparr>"

text \<open>The arguments of the mutation \<open>saveAccount\<close> (convex/users.ts, lines 177-188).\<close>

record saveArgs =
  arg_deviceId :: string
  arg_username :: string
  arg_color :: string
  arg_status :: string
  arg_avatar :: "string option"
  arg_preferences :: prefs

datatype error = TypeError

section \<open>Database primitives\<close>

text \<open>
  \<open>ctx.db.patch(id, fields)\<close> overwrites the given fields of the document with that
  identifier, \<open>ctx.db.delete(id)\<close> removes it, \<open>ctx.db.insert(table, fields)\<close>
  appends a document under a fresh identifier. \<open>.filter(p).first()\<close> is \<open>find p\<close>,
  \<open>.filter(p).collect()\<close> is \<open>filter p\<close>. None of the queries names an index, so
  \<open>.order("desc")\<close> is the default order reversed: the table walked backwards, the
  document created last coming first.
\<close>

definition patchSaved ::
  "nat \<Rightarrow> (savedAccount \<Rightarrow> savedAccount) \<Rightarrow> savedAccount list \<Rightarrow> savedAccount list" where
  "patchSaved i f tbl = map (\<lambda>r. if sa_id r = i then f r else r) tbl"

definition deleteSaved :: "nat \<Rightarrow> savedAccount list \<Rightarrow> savedAccount list" where
  "deleteSaved i tbl = filter (\<lambda>r. sa_id r \<noteq> i) tbl"

definition patchUser :: "nat \<Rightarrow> (user \<Rightarrow> user) \<Rightarrow> user list \<Rightarrow> user list" where
  "patchUser i f tbl = map (\<lambda>r. if user_id r = i then f r else r) tbl"

definition order_desc :: "'a list \<Rightarrow> 'a list" where
  "order_desc tbl = rev tbl"

text \<open>
  \<open>Array.prototype.reduce\<close> without an initial value: the first element starts the
  accumulator, and an empty array throws a TypeError.
\<close>

fun reduce :: "('a \<Rightarrow> 'a \<Rightarrow> 'a) \<Rightarrow> 'a list \<Rightarrow> error + 'a" where
  "reduce f [] = Inl TypeError"
| "reduce f (x # xs) = Inr (foldl f x xs)"

section \<open>saveAccount (convex/users.ts, lines 176-266)\<close>

text \<open>The callback of the reduce at lines 219-221.\<close>

definition older :: "savedAccount \<Rightarrow> savedAccount \<Rightarrow> savedAccount" where
  "older oldest current = (if lastUsed current < lastUsed oldest then current else oldest)"

text \<open>Lines 217-223: remove the oldest account once the device holds three.\<close>

definition evictOldest :: "savedAccount list \<Rightarrow> store \<Rightarrow> error + store" where
  "evictOldest accounts s =
     (if length accounts \<ge> 3 then
        (case reduce older accounts of
           Inl e \<Rightarrow> Inl e
         | Inr oldestAccount \<Rightarrow>
             Inr (s\<lparr>savedAccounts := deleteSaved (sa_id oldestAccount) (savedAccounts s)\<rparr>))
      else Inr s)"

text \<open>Lines 226-234: create the new account, under the identifier \<open>i\<close>.\<close>

definition newAccount :: "nat \<Rightarrow> int \<Rightarrow> saveArgs \<Rightarrow> savedAccount" where
  "newAccount i now args =
     \<lparr>sa_id = i, deviceId = arg_deviceId args, username = arg_username args,
      color = arg_color args, status = arg_status args, avatar = arg_avatar args,
      preferences = arg_preferences args, lastUsed = now\<rparr>"

definition insertSaved :: "int \<Rightarrow> saveArgs \<Rightarrow> store \<Rightarrow> store" where
  "insertSaved now args s =
     s\<lparr>savedAccounts := savedAccounts s @ [newAccount (nextId s) now args],
       nextId := Suc (nextId s)\<rparr>"

text \<open>Lines 237-263: create or update the user record.\<close>

definition refreshUser :: "int \<Rightarrow> saveArgs \<Rightarrow> user \<Rightarrow> user" where
  "refreshUser now args u =
     u\<lparr>user_color := arg_color args, user_status := arg_status args,
       user_avatar := arg_avatar args, user_preferences := arg_preferences args,
       lastSeen := Some now, isOnline := Some True, lastActivity := Some now\<rparr>"

definition newUser :: "nat \<Rightarrow> int \<Rightarrow> saveArgs \<Rightarrow> user" where
  "newUser i now args =
     \<lparr>user_id = i, user_username = arg_username args, user_color = arg_color args,
      user_status = arg_status args, user_avatar = arg_avatar args,
      user_preferences = arg_preferences args,
      lastSeen = Some now, isOnline = Some True, lastActivity = Some now\<rparr>"

definition upsertUser :: "int \<Rightarrow> saveArgs \<Rightarrow> store \<Rightarrow> store" where
  "upsertUser now args s =
     (case find (\<lambda>u. user_username u = arg_username args) (users s) of
        Some usr \<Rightarrow> s\<lparr>users := patchUser (user_id usr) (refreshUser now args) (users s)\<rparr>
      | None \<Rightarrow>
          s\<lparr>users := users s @ [newUser (nextId s) now args], nextId := Suc (nextId s)\<rparr>)"

text \<open>
  The fields the patch at lines 203-209 overwrites.
\<close>

definition refresh :: "int \<Rightarrow> saveArgs \<Rightarrow> savedAccount \<Rightarrow> savedAccount" where
  "refresh now args r =
     r\<lparr>color := arg_color args, status := arg_status args, avatar := arg_avatar args,
       preferences := arg_preferences args, lastUsed := now\<rparr>"

text \<open>
  The handler. \<open>now\<close> is the value of \<open>Date.now()\<close>, which the runtime fixes for the
  whole execution of a mutation, so every field written by one call carries the same time.
  The result is the store the mutation leaves, or the exception it throws.
\<close>

definition saveAccount :: "int \<Rightarrow> store \<Rightarrow> saveArgs \<Rightarrow> error + store" where
  "saveAccount now s args =
     (case find (\<lambda>r. deviceId r = arg_deviceId args \<and> username r = arg_username args)
             (savedAccounts s) of
        Some existingAccount \<Rightarrow>
          Inr (s\<lparr>savedAccounts :=
                   patchSaved (sa_id existingAccount) (refresh now args) (savedAccounts s)\<rparr>)
      | None \<Rightarrow>
          (let accounts = filter (\<lambda>r. deviceId r = arg_deviceId args) (savedAccounts s) in
           case evictOldest accounts s of
             Inl e \<Rightarrow> Inl e
           | Inr s1 \<Rightarrow> Inr (upsertUser now args (insertSaved now args s1))))"

section \<open>The queries (convex/users.ts, lines 268-297)\<close>

text \<open>
  A query handler only reads: it returns its result together with the store, which it
  hands back as it received it.
\<close>

definition getSavedAccounts :: "store \<Rightarrow> string \<Rightarrow> savedAccount list \<times> store" where
  "getSavedAccounts s d =
     (let accounts = take 3 (order_desc (filter (\<lambda>r. deviceId r = d) (savedAccounts s)))
      in (accounts, s))"

record accountCount =
  count :: nat
  maxAccounts :: nat

definition getAccountCount :: "store \<Rightarrow> string \<Rightarrow> accountCount \<times> store" where
  "getAccountCount s d =
     (let accounts = filter (\<lambda>r. deviceId r = d) (savedAccounts s)
      in (\<lparr>count = length accounts, maxAccounts = 3\<rparr>, s))"

section \<open>Sequences of calls\<close>

text \<open>A call is the time it runs at and its arguments; calls run one after another.\<close>

fun run :: "store \<Rightarrow> (int \<times> saveArgs) list \<Rightarrow> error + store" where
  "run s [] = Inr s"
| "run s ((now, args) # calls) =
     (case saveAccount now s args of Inl e \<Rightarrow> Inl e | Inr s' \<Rightarrow> run s' calls)"

definition device_accounts :: "store \<Rightarrow> string \<Rightarrow> savedAccount list" where
  "device_accounts s d = filter (\<lambda>r. deviceId r = d) (savedAccounts s)"

text \<open>
  What the database guarantees of every store: identifiers are handed out in increasing
  order, so they grow along a table and are unique, and the counter is beyond all of them.
\<close>

definition wf_store :: "store \<Rightarrow> bool" where
  "wf_store s \<longleftrightarrow>
     sorted_wrt (<) (map sa_id (savedAccounts s)) \<and>
     list_all (\<lambda>r. sa_id r < nextId s) (savedAccounts s) \<and>
     distinct (map user_id (users s)) \<and>
     list_all (\<lambda>u. user_id u < nextId s) (users s)"

section \<open>The scenarios of the specification\<close>

text \<open>A call with the preferences the client sends (src/components/chat.tsx).\<close>

definition acct :: "string \<Rightarrow> string \<Rightarrow> string \<Rightarrow> saveArgs" where
  "acct d u c =
     \<lparr>arg_deviceId = d, arg_username = u, arg_color = c, arg_status = [],
      arg_avatar = None,
      arg_preferences = \<lparr>theme = Some ''light'', notifications = Some True, sound = Some True\<rparr>\<rparr>"

text \<open>Device D1 saves alice, bob and carol at times 1, 2, 3.\<close>

definition three_saves :: "(int \<times> saveArgs) list" where
  "three_saves =
     [(1, acct ''D1'' ''alice'' ''#000000''), (2, acct ''D1'' ''bob'' ''#000000''),
      (3, acct ''D1'' ''carol'' ''#000000'')]"

text \<open>Then dave at time 4.\<close>

definition four_saves :: "(int \<times> saveArgs) list" where
  "four_saves = three_saves @ [(4, acct ''D1'' ''dave'' ''#000000'')]"

text \<open>Then bob again, with a new colour, at time 5.\<close>

definition resave_bob :: "(int \<times> saveArgs) list" where
  "resave_bob = four_saves @ [(5, acct ''D1'' ''bob'' ''#ff0000'')]"

text \<open>What \<open>getSavedAccounts\<close> and \<open>getAccountCount\<close> return after a run from the empty store.\<close>

definition list_after :: "(int \<times> saveArgs) list \<Rightarrow> string \<Rightarrow> error + savedAccount list" where
  "list_after calls d =
     (case run empty_store calls of
        Inl e \<Rightarrow> Inl e
      | Inr s \<Rightarrow> Inr (fst (getSavedAccounts s d)))"

definition count_after :: "(int \<times> saveArgs) list \<Rightarrow> string \<Rightarrow> error + accountCount" where
  "count_after calls d =
     (case run empty_store calls of
        Inl e \<Rightarrow> Inl e
      | Inr s \<Rightarrow> Inr (fst (getAccountCount s d)))"

text \<open>
  A store in which D1 has reached the limit and D2 holds one account: the store that
  D1 saving alice, D2 saving alice, D1 saving bob and D1 saving carol leave behind.
\<close>

definition mixed_saves :: "(int \<times> saveArgs) list" where
  "mixed_saves =
     [(1, acct ''D1'' ''alice'' ''#000000''), (2, acct ''D2'' ''alice'' ''#00ff00''),
      (3, acct ''D1'' ''bob'' ''#000000''), (4, acct ''D1'' ''carol'' ''#000000'')]"

definition mixed_store :: store where
  "mixed_store =
     \<lparr>savedAccounts =
        [newAccount 0 1 (acct ''D1'' ''alice'' ''#000000''),
         newAccount 2 2 (acct ''D2'' ''alice'' ''#00ff00''),
         newAccount 3 3 (acct ''D1'' ''bob'' ''#000000''),
         newAccount 5 4 (acct ''D1'' ''carol'' ''#000000'')],
      users =
        [newUser 1 2 (acct ''D2'' ''alice'' ''#00ff00''),
         newUser 4 3 (acct ''D1'' ''bob'' ''#000000''),
         newUser 6 4 (acct ''D1'' ''carol'' ''#000000'')],
      nextId = 7\<rparr>"

text \<open>The same store with a fourth account of D1: a state beyond the limit.\<close>

definition over_store :: store where
  "over_store =
     mixed_store\<lparr>savedAccounts :=
        savedAccounts mixed_store @ [newAccount 7 5 (acct ''D1'' ''dave'' ''#000000'')],
        nextId := 8\<rparr>"

section \<open>Auxiliary facts\<close>

lemma find_SomeD: "find P xs = Some e \<Longrightarrow> e \<in> set xs \<and> P e"
  by (induction xs) (auto split: if_splits)

lemma find_Some_split:
  "find P xs = Some e \<Longrightarrow> \<exists>pre post. xs = pre @ e # post \<and> P e \<and> (\<forall>r\<in>set pre. \<not> P r)"
proof (induction xs)
  case Nil
  then show ?case by simp
next
  case (Cons x xs)
  show ?case
  proof (cases "P x")
    case True
    with Cons.prems have "x = e" by simp
    with True have "x # xs = [] @ e # xs \<and> P e \<and> (\<forall>r\<in>set []. \<not> P r)" by simp
    then show ?thesis by blast
  next
    case False
    with Cons.prems have "find P xs = Some e" by simp
    from Cons.IH[OF this] obtain pre post where
      "xs = pre @ e # post" "P e" "\<forall>r\<in>set pre. \<not> P r" by blast
    with False have "x # xs = (x # pre) @ e # post \<and> P e \<and> (\<forall>r\<in>set (x # pre). \<not> P r)" by simp
    then show ?thesis by blast
  qed
qed

lemma find_None_iff2: "find P xs = None \<longleftrightarrow> (\<forall>x\<in>set xs. \<not> P x)"
  by (induction xs) auto

lemma map_sa_id_patchSaved: "map sa_id (patchSaved i (refresh now a) tbl) = map sa_id tbl"
  by (induction tbl) (auto simp: patchSaved_def refresh_def)

lemma map_deviceId_patchSaved: "map deviceId (patchSaved i (refresh now a) tbl) = map deviceId tbl"
  by (induction tbl) (auto simp: patchSaved_def refresh_def)

lemma length_filter_deviceId:
  "length (filter (\<lambda>r. deviceId r = d) tbl) = length (filter (\<lambda>x. x = d) (map deviceId tbl))"
  by (induction tbl) auto

lemma count_patchSaved:
  "length (filter (\<lambda>r. deviceId r = d) (patchSaved i (refresh now a) tbl)) =
   length (filter (\<lambda>r. deviceId r = d) tbl)"
  by (simp add: length_filter_deviceId map_deviceId_patchSaved)

lemma patchSaved_other:
  "\<forall>r\<in>set tbl. sa_id r \<noteq> i \<Longrightarrow> patchSaved i f tbl = tbl"
  by (induction tbl) (auto simp: patchSaved_def)

lemma patchSaved_split:
  "distinct (map sa_id (pre @ e # post)) \<Longrightarrow>
   patchSaved (sa_id e) f (pre @ e # post) = pre @ f e # post"
proof -
  assume d: "distinct (map sa_id (pre @ e # post))"
  then have "\<forall>r\<in>set pre. sa_id r \<noteq> sa_id e" "\<forall>r\<in>set post. sa_id r \<noteq> sa_id e"
    by (auto simp: image_iff)
  then have "patchSaved (sa_id e) f pre = pre" "patchSaved (sa_id e) f post = post"
    by (simp_all add: patchSaved_other)
  then show ?thesis unfolding patchSaved_def by simp
qed

lemma deleteSaved_other:
  "\<forall>r\<in>set tbl. sa_id r \<noteq> i \<Longrightarrow> deleteSaved i tbl = tbl"
  by (induction tbl) (auto simp: deleteSaved_def)

lemma deleteSaved_split:
  "distinct (map sa_id (pre @ v # post)) \<Longrightarrow> deleteSaved (sa_id v) (pre @ v # post) = pre @ post"
proof -
  assume d: "distinct (map sa_id (pre @ v # post))"
  then have "\<forall>r\<in>set pre. sa_id r \<noteq> sa_id v" "\<forall>r\<in>set post. sa_id r \<noteq> sa_id v"
    by (auto simp: image_iff)
  then have "deleteSaved (sa_id v) pre = pre" "deleteSaved (sa_id v) post = post"
    by (simp_all add: deleteSaved_other)
  then show ?thesis unfolding deleteSaved_def by simp
qed

lemma foldl_older_split:
  "\<exists>pre post. x # xs = pre @ foldl older x xs # post \<and>
     (\<forall>r\<in>set pre. lastUsed (foldl older x xs) < lastUsed r) \<and>
     (\<forall>r\<in>set post. lastUsed (foldl older x xs) \<le> lastUsed r)"
proof (induction xs rule: rev_induct)
  case Nil
  have "[x] = [] @ foldl older x [] # [] \<and>
     (\<forall>r\<in>set []. lastUsed (foldl older x []) < lastUsed r) \<and>
     (\<forall>r\<in>set []. lastUsed (foldl older x []) \<le> lastUsed r)" by simp
  then show ?case by blast
next
  case (snoc y ys)
  let ?v = "foldl older x ys"
  from snoc obtain pre post where
    sp: "x # ys = pre @ ?v # post" and
    lt: "\<forall>r\<in>set pre. lastUsed ?v < lastUsed r" and
    le: "\<forall>r\<in>set post. lastUsed ?v \<le> lastUsed r" by blast
  show ?case
  proof (cases "lastUsed y < lastUsed ?v")
    case True
    then have v': "foldl older x (ys @ [y]) = y" by (simp add: older_def)
    have "\<forall>r\<in>set (x # ys). lastUsed y < lastUsed r"
    proof
      fix r assume "r \<in> set (x # ys)"
      then have "r \<in> set pre \<or> r = ?v \<or> r \<in> set post" unfolding sp by auto
      with lt le True show "lastUsed y < lastUsed r" by force
    qed
    then have "x # ys @ [y] = (x # ys) @ y # [] \<and>
       (\<forall>r\<in>set (x # ys). lastUsed y < lastUsed r) \<and> (\<forall>r\<in>set []. lastUsed y \<le> lastUsed r)"
      by simp
    then show ?thesis unfolding v' by blast
  next
    case False
    then have v': "foldl older x (ys @ [y]) = ?v" by (simp add: older_def)
    from False le have "\<forall>r\<in>set (post @ [y]). lastUsed ?v \<le> lastUsed r" by auto
    with sp lt have "x # ys @ [y] = pre @ ?v # (post @ [y]) \<and>
       (\<forall>r\<in>set pre. lastUsed ?v < lastUsed r) \<and>
       (\<forall>r\<in>set (post @ [y]). lastUsed ?v \<le> lastUsed r)" by simp
    then show ?thesis unfolding v' by blast
  qed
qed

lemma reduce_older_split:
  "accounts \<noteq> [] \<Longrightarrow>
   \<exists>v pre post. reduce older accounts = Inr v \<and> accounts = pre @ v # post \<and>
     (\<forall>r\<in>set pre. lastUsed v < lastUsed r) \<and> (\<forall>r\<in>set post. lastUsed v \<le> lastUsed r)"
proof (cases accounts)
  case Nil
  assume "accounts \<noteq> []"
  with Nil show ?thesis by simp
next
  case (Cons x xs)
  from foldl_older_split[of x xs] show ?thesis unfolding Cons by auto
qed


lemma filter_split:
  "filter P xs = pre @ v # post \<Longrightarrow>
   \<exists>tpre tpost. xs = tpre @ v # tpost \<and> filter P tpre = pre \<and> filter P tpost = post \<and> P v"
proof (induction xs arbitrary: pre)
  case Nil
  then show ?case by simp
next
  case (Cons x xs)
  show ?case
  proof (cases "P x")
    case False
    with Cons.prems have "filter P xs = pre @ v # post" by simp
    from Cons.IH[OF this] obtain tpre tpost where
      "xs = tpre @ v # tpost" "filter P tpre = pre" "filter P tpost = post" "P v" by blast
    with False have "x # xs = (x # tpre) @ v # tpost \<and> filter P (x # tpre) = pre \<and>
        filter P tpost = post \<and> P v" by simp
    then show ?thesis by blast
  next
    case True
    with Cons.prems have eq: "x # filter P xs = pre @ v # post" by simp
    show ?thesis
    proof (cases pre)
      case Nil
      with eq True have "x # xs = [] @ v # xs \<and> filter P [] = pre \<and> filter P xs = post \<and> P v"
        by simp
      then show ?thesis by blast
    next
      case (Cons p pre')
      with eq have px: "p = x" and "filter P xs = pre' @ v # post" by simp_all
      from Cons.IH[OF this(2)] obtain tpre tpost where
        "xs = tpre @ v # tpost" "filter P tpre = pre'" "filter P tpost = post" "P v" by blast
      with True px Cons have "x # xs = (x # tpre) @ v # tpost \<and> filter P (x # tpre) = pre \<and>
        filter P tpost = post \<and> P v" by simp
      then show ?thesis by blast
    qed
  qed
qed

lemma evictOldest_below: "length accounts < 3 \<Longrightarrow> evictOldest accounts s = Inr s"
  by (simp add: evictOldest_def)

lemma evictOldest_full:
  assumes "3 \<le> length accounts"
  shows "\<exists>v pre post. accounts = pre @ v # post \<and>
     (\<forall>r\<in>set pre. lastUsed v < lastUsed r) \<and> (\<forall>r\<in>set post. lastUsed v \<le> lastUsed r) \<and>
     evictOldest accounts s = Inr (s\<lparr>savedAccounts := deleteSaved (sa_id v) (savedAccounts s)\<rparr>)"
proof -
  from assms have "accounts \<noteq> []" by auto
  from reduce_older_split[OF this] obtain v pre post where
    r: "reduce older accounts = Inr v" and
    sp: "accounts = pre @ v # post" "\<forall>r\<in>set pre. lastUsed v < lastUsed r"
      "\<forall>r\<in>set post. lastUsed v \<le> lastUsed r" by blast
  from assms r have
    "evictOldest accounts s = Inr (s\<lparr>savedAccounts := deleteSaved (sa_id v) (savedAccounts s)\<rparr>)"
    by (simp add: evictOldest_def)
  with sp show ?thesis by blast
qed

lemma saveAccount_existing:
  "find (\<lambda>r. deviceId r = arg_deviceId args \<and> username r = arg_username args) (savedAccounts s)
     = Some e \<Longrightarrow>
   saveAccount now s args =
     Inr (s\<lparr>savedAccounts := patchSaved (sa_id e) (refresh now args) (savedAccounts s)\<rparr>)"
  by (simp add: saveAccount_def)

lemma saveAccount_new:
  "find (\<lambda>r. deviceId r = arg_deviceId args \<and> username r = arg_username args) (savedAccounts s)
     = None \<Longrightarrow>
   saveAccount now s args =
     (case evictOldest (device_accounts s (arg_deviceId args)) s of
        Inl e \<Rightarrow> Inl e
      | Inr s1 \<Rightarrow> Inr (upsertUser now args (insertSaved now args s1)))"
  by (simp add: saveAccount_def device_accounts_def)

lemma saveAccount_new_below:
  "find (\<lambda>r. deviceId r = arg_deviceId args \<and> username r = arg_username args) (savedAccounts s)
     = None \<Longrightarrow> length (device_accounts s (arg_deviceId args)) < 3 \<Longrightarrow>
   saveAccount now s args = Inr (upsertUser now args (insertSaved now args s))"
  by (simp add: saveAccount_new evictOldest_below)

lemma wf_store_distinct: "wf_store s \<Longrightarrow> distinct (map sa_id (savedAccounts s))"
  unfolding wf_store_def by (simp add: strict_sorted_iff)

lemma saveAccount_new_full:
  assumes wf: "wf_store s"
    and new: "find (\<lambda>r. deviceId r = arg_deviceId args \<and> username r = arg_username args)
                (savedAccounts s) = None"
    and full: "3 \<le> length (device_accounts s (arg_deviceId args))"
  shows "\<exists>v tpre tpost. savedAccounts s = tpre @ v # tpost \<and> deviceId v = arg_deviceId args \<and>
     (\<forall>r\<in>set tpre. deviceId r = arg_deviceId args \<longrightarrow> lastUsed v < lastUsed r) \<and>
     (\<forall>r\<in>set tpost. deviceId r = arg_deviceId args \<longrightarrow> lastUsed v \<le> lastUsed r) \<and>
     saveAccount now s args =
       Inr (upsertUser now args (insertSaved now args (s\<lparr>savedAccounts := tpre @ tpost\<rparr>)))"
proof -
  let ?d = "arg_deviceId args"
  from evictOldest_full[OF full, of s] obtain v pre post where
    sp: "device_accounts s ?d = pre @ v # post" and
    lt: "\<forall>r\<in>set pre. lastUsed v < lastUsed r" and
    le: "\<forall>r\<in>set post. lastUsed v \<le> lastUsed r" and
    ev: "evictOldest (device_accounts s ?d) s =
           Inr (s\<lparr>savedAccounts := deleteSaved (sa_id v) (savedAccounts s)\<rparr>)" by blast
  from sp obtain tpre tpost where
    t: "savedAccounts s = tpre @ v # tpost" and
    fpre: "filter (\<lambda>r. deviceId r = ?d) tpre = pre" and
    fpost: "filter (\<lambda>r. deviceId r = ?d) tpost = post" and
    dv: "deviceId v = ?d"
    unfolding device_accounts_def using filter_split[of "\<lambda>r. deviceId r = ?d"] by blast
  from wf have "distinct (map sa_id (tpre @ v # tpost))"
    using wf_store_distinct t by metis
  then have del: "deleteSaved (sa_id v) (savedAccounts s) = tpre @ tpost"
    unfolding t by (rule deleteSaved_split)
  have 1: "\<forall>r\<in>set tpre. deviceId r = ?d \<longrightarrow> lastUsed v < lastUsed r"
    using lt fpre by auto
  have 2: "\<forall>r\<in>set tpost. deviceId r = ?d \<longrightarrow> lastUsed v \<le> lastUsed r"
    using le fpost by auto
  have "saveAccount now s args =
       Inr (upsertUser now args (insertSaved now args (s\<lparr>savedAccounts := tpre @ tpost\<rparr>)))"
    by (simp add: saveAccount_new[OF new] ev del)
  with t dv 1 2 show ?thesis by blast
qed

lemma savedAccounts_upsertUser [simp]: "savedAccounts (upsertUser now args s) = savedAccounts s"
  by (simp add: upsertUser_def split: option.splits)

lemma users_insertSaved [simp]: "users (insertSaved now args s) = users s"
  by (simp add: insertSaved_def)

lemma nextId_insertSaved [simp]: "nextId (insertSaved now args s) = Suc (nextId s)"
  by (simp add: insertSaved_def)


lemma list_all_sa_id: "list_all (\<lambda>r. sa_id r < n) tbl \<longleftrightarrow> (\<forall>i\<in>set (map sa_id tbl). i < n)"
  by (auto simp: list_all_iff)

lemma wf_empty_store: "wf_store empty_store"
  by (simp add: wf_store_def empty_store_def)

lemma wf_patchSaved:
  "wf_store s \<Longrightarrow>
   wf_store (s\<lparr>savedAccounts := patchSaved i (refresh now args) (savedAccounts s)\<rparr>)"
  unfolding wf_store_def list_all_sa_id by (simp add: map_sa_id_patchSaved)

lemma wf_remove:
  "wf_store s \<Longrightarrow> savedAccounts s = tpre @ v # tpost \<Longrightarrow>
   wf_store (s\<lparr>savedAccounts := tpre @ tpost\<rparr>)"
  unfolding wf_store_def by (auto simp: sorted_wrt_append)

lemma wf_insertSaved: "wf_store s \<Longrightarrow> wf_store (insertSaved now args s)"
  unfolding wf_store_def insertSaved_def newAccount_def
  by (auto simp: sorted_wrt_append list_all_iff less_Suc_eq)

lemma map_user_id_patchUser: "map user_id (patchUser i (refreshUser now a) tbl) = map user_id tbl"
  by (induction tbl) (auto simp: patchUser_def refreshUser_def)

lemma list_all_user_id:
  "list_all (\<lambda>r. user_id r < n) tbl \<longleftrightarrow> (\<forall>i\<in>set (map user_id tbl). i < n)"
  by (auto simp: list_all_iff)

lemma wf_upsertUser: "wf_store s \<Longrightarrow> wf_store (upsertUser now args s)"
proof (cases "find (\<lambda>u. user_username u = arg_username args) (users s)")
  case None
  assume "wf_store s"
  then show ?thesis
    unfolding wf_store_def upsertUser_def newUser_def None
    by (auto simp: list_all_iff less_Suc_eq)
next
  case (Some usr)
  assume "wf_store s"
  then show ?thesis
    unfolding wf_store_def upsertUser_def Some list_all_user_id
    by (simp add: map_user_id_patchUser)
qed

lemma saveAccount_returns: "\<exists>s'. saveAccount now s args = Inr s'"
proof (cases "find (\<lambda>r. deviceId r = arg_deviceId args \<and> username r = arg_username args)
                (savedAccounts s)")
  case (Some e)
  then show ?thesis by (simp add: saveAccount_existing)
next
  case None
  show ?thesis
  proof (cases "length (device_accounts s (arg_deviceId args)) < 3")
    case True
    with None show ?thesis by (simp add: saveAccount_new_below)
  next
    case False
    then have "3 \<le> length (device_accounts s (arg_deviceId args))" by simp
    from evictOldest_full[OF this, of s] obtain s1 where
      "evictOldest (device_accounts s (arg_deviceId args)) s = Inr s1" by blast
    then show ?thesis by (simp add: saveAccount_new[OF None])
  qed
qed

text \<open>The three shapes the table of saved accounts can take after a call.\<close>

lemma saveAccount_shapes:
  assumes wf: "wf_store s"
  shows "\<exists>s'. saveAccount now s args = Inr s' \<and> wf_store s' \<and>
    ((\<exists>pre e post. savedAccounts s = pre @ e # post \<and>
        deviceId e = arg_deviceId args \<and> username e = arg_username args \<and>
        (\<forall>r\<in>set pre. \<not> (deviceId r = arg_deviceId args \<and> username r = arg_username args)) \<and>
        savedAccounts s' = pre @ refresh now args e # post \<and>
        users s' = users s \<and> nextId s' = nextId s) \<or>
     ((\<forall>r\<in>set (savedAccounts s).
          \<not> (deviceId r = arg_deviceId args \<and> username r = arg_username args)) \<and>
      length (device_accounts s (arg_deviceId args)) < 3 \<and>
      savedAccounts s' = savedAccounts s @ [newAccount (nextId s) now args]) \<or>
     ((\<forall>r\<in>set (savedAccounts s).
          \<not> (deviceId r = arg_deviceId args \<and> username r = arg_username args)) \<and>
      3 \<le> length (device_accounts s (arg_deviceId args)) \<and>
      (\<exists>tpre v tpost. savedAccounts s = tpre @ v # tpost \<and> deviceId v = arg_deviceId args \<and>
         (\<forall>r\<in>set tpre. deviceId r = arg_deviceId args \<longrightarrow> lastUsed v < lastUsed r) \<and>
         (\<forall>r\<in>set tpost. deviceId r = arg_deviceId args \<longrightarrow> lastUsed v \<le> lastUsed r) \<and>
         savedAccounts s' = tpre @ tpost @ [newAccount (nextId s) now args])))"
proof (cases "find (\<lambda>r. deviceId r = arg_deviceId args \<and> username r = arg_username args)
                (savedAccounts s)")
  case (Some e)
  from find_Some_split[OF Some] obtain pre post where
    sp: "savedAccounts s = pre @ e # post" and
    pe: "deviceId e = arg_deviceId args \<and> username e = arg_username args" and
    np: "\<forall>r\<in>set pre. \<not> (deviceId r = arg_deviceId args \<and> username r = arg_username args)"
    by blast
  let ?s' = "s\<lparr>savedAccounts := patchSaved (sa_id e) (refresh now args) (savedAccounts s)\<rparr>"
  have r: "saveAccount now s args = Inr ?s'" using Some by (rule saveAccount_existing)
  have w: "wf_store ?s'" using wf by (rule wf_patchSaved)
  from wf have "distinct (map sa_id (pre @ e # post))" using wf_store_distinct sp by metis
  then have "patchSaved (sa_id e) (refresh now args) (pre @ e # post)
             = pre @ refresh now args e # post" by (rule patchSaved_split)
  then have "savedAccounts ?s' = pre @ refresh now args e # post" by (simp add: sp)
  with r w sp pe np show ?thesis by auto
next
  case None
  then have new: "\<forall>r\<in>set (savedAccounts s).
          \<not> (deviceId r = arg_deviceId args \<and> username r = arg_username args)"
    by (simp add: find_None_iff2)
  show ?thesis
  proof (cases "length (device_accounts s (arg_deviceId args)) < 3")
    case True
    let ?s' = "upsertUser now args (insertSaved now args s)"
    have r: "saveAccount now s args = Inr ?s'" using None True by (rule saveAccount_new_below)
    have w: "wf_store ?s'" using wf by (intro wf_upsertUser wf_insertSaved)
    have "savedAccounts ?s' = savedAccounts s @ [newAccount (nextId s) now args]"
      by (simp add: insertSaved_def)
    with r w new True show ?thesis by auto
  next
    case False
    then have full: "3 \<le> length (device_accounts s (arg_deviceId args))" by simp
    from saveAccount_new_full[OF wf None full, of now] obtain v tpre tpost where
      t: "savedAccounts s = tpre @ v # tpost" "deviceId v = arg_deviceId args"
        "\<forall>r\<in>set tpre. deviceId r = arg_deviceId args \<longrightarrow> lastUsed v < lastUsed r"
        "\<forall>r\<in>set tpost. deviceId r = arg_deviceId args \<longrightarrow> lastUsed v \<le> lastUsed r" and
      r: "saveAccount now s args =
        Inr (upsertUser now args (insertSaved now args (s\<lparr>savedAccounts := tpre @ tpost\<rparr>)))"
      by blast
    let ?s' = "upsertUser now args (insertSaved now args (s\<lparr>savedAccounts := tpre @ tpost\<rparr>))"
    have w: "wf_store ?s'" using wf t(1) by (intro wf_upsertUser wf_insertSaved wf_remove)
    have "savedAccounts ?s' = tpre @ tpost @ [newAccount (nextId s) now args]"
      by (simp add: insertSaved_def)
    with r w new full t show ?thesis by blast
  qed
qed

lemma mixed_store_reachable: "run empty_store mixed_saves = Inr mixed_store"
  by code_simp

lemma wf_mixed_store: "wf_store mixed_store"
  by code_simp

text \<open>How a call changes the saved accounts of each device.\<close>

lemma saveAccount_device_accounts:
  assumes wf: "wf_store s"
  shows "\<exists>s'. saveAccount now s args = Inr s' \<and> wf_store s' \<and>
    (\<forall>d. d \<noteq> arg_deviceId args \<longrightarrow> device_accounts s' d = device_accounts s d) \<and>
    length (device_accounts s' (arg_deviceId args)) =
      (if (\<forall>r\<in>set (savedAccounts s).
             \<not> (deviceId r = arg_deviceId args \<and> username r = arg_username args)) \<and>
          length (device_accounts s (arg_deviceId args)) < 3
       then Suc (length (device_accounts s (arg_deviceId args)))
       else length (device_accounts s (arg_deviceId args)))"
proof -
  let ?d = "arg_deviceId args"
  let ?new = "\<forall>r\<in>set (savedAccounts s).
             \<not> (deviceId r = arg_deviceId args \<and> username r = arg_username args)"
  from saveAccount_shapes[OF wf, of now args] obtain s' where
    r: "saveAccount now s args = Inr s'" and w: "wf_store s'" and
    sh: "(\<exists>pre e post. savedAccounts s = pre @ e # post \<and>
        deviceId e = ?d \<and> username e = arg_username args \<and>
        (\<forall>r\<in>set pre. \<not> (deviceId r = ?d \<and> username r = arg_username args)) \<and>
        savedAccounts s' = pre @ refresh now args e # post \<and>
        users s' = users s \<and> nextId s' = nextId s) \<or>
     (?new \<and> length (device_accounts s ?d) < 3 \<and>
      savedAccounts s' = savedAccounts s @ [newAccount (nextId s) now args]) \<or>
     (?new \<and> 3 \<le> length (device_accounts s ?d) \<and>
      (\<exists>tpre v tpost. savedAccounts s = tpre @ v # tpost \<and> deviceId v = ?d \<and>
         (\<forall>r\<in>set tpre. deviceId r = ?d \<longrightarrow> lastUsed v < lastUsed r) \<and>
         (\<forall>r\<in>set tpost. deviceId r = ?d \<longrightarrow> lastUsed v \<le> lastUsed r) \<and>
         savedAccounts s' = tpre @ tpost @ [newAccount (nextId s) now args]))"
    by blast
  have "(\<forall>d. d \<noteq> ?d \<longrightarrow> device_accounts s' d = device_accounts s d) \<and>
    length (device_accounts s' ?d) =
      (if ?new \<and> length (device_accounts s ?d) < 3
       then Suc (length (device_accounts s ?d)) else length (device_accounts s ?d))"
    using sh
  proof (elim disjE exE conjE)
    fix pre e post
    assume a: "savedAccounts s = pre @ e # post" "deviceId e = ?d" "username e = arg_username args"
      "savedAccounts s' = pre @ refresh now args e # post"
    have "deviceId (refresh now args e) = deviceId e" by (simp add: refresh_def)
    with a show ?thesis by (auto simp: device_accounts_def)
  next
    assume a: "?new" "length (device_accounts s ?d) < 3"
      "savedAccounts s' = savedAccounts s @ [newAccount (nextId s) now args]"
    have "deviceId (newAccount (nextId s) now args) = ?d" by (simp add: newAccount_def)
    with a show ?thesis by (auto simp: device_accounts_def)
  next
    fix tpre v tpost
    assume a: "?new" "3 \<le> length (device_accounts s ?d)"
      "savedAccounts s = tpre @ v # tpost" "deviceId v = ?d"
      "savedAccounts s' = tpre @ tpost @ [newAccount (nextId s) now args]"
    have n: "deviceId (newAccount (nextId s) now args) = ?d" by (simp add: newAccount_def)
    have 1: "\<forall>d. d \<noteq> ?d \<longrightarrow> device_accounts s' d = device_accounts s d"
      using a(3,4,5) n by (auto simp: device_accounts_def)
    have 2: "length (device_accounts s' ?d) = length (device_accounts s ?d)"
      using a(3,4,5) n by (simp add: device_accounts_def)
    from 1 2 a(2) show ?thesis by simp
  qed
  with r w show ?thesis by blast
qed

lemma saveAccount_keeps_cap:
  assumes "wf_store s" and "\<forall>d. length (device_accounts s d) \<le> 3"
  shows "\<exists>s'. saveAccount now s args = Inr s' \<and> wf_store s' \<and>
           (\<forall>d. length (device_accounts s' d) \<le> 3)"
proof -
  from saveAccount_device_accounts[OF assms(1), of now args] obtain s' where
    r: "saveAccount now s args = Inr s'" "wf_store s'" and
    o: "\<forall>d. d \<noteq> arg_deviceId args \<longrightarrow> device_accounts s' d = device_accounts s d" and
    c: "length (device_accounts s' (arg_deviceId args)) =
      (if (\<forall>r\<in>set (savedAccounts s).
             \<not> (deviceId r = arg_deviceId args \<and> username r = arg_username args)) \<and>
          length (device_accounts s (arg_deviceId args)) < 3
       then Suc (length (device_accounts s (arg_deviceId args)))
       else length (device_accounts s (arg_deviceId args)))" by blast
  have "\<forall>d. length (device_accounts s' d) \<le> 3"
  proof
    fix d
    show "length (device_accounts s' d) \<le> 3"
    proof (cases "d = arg_deviceId args")
      case True
      with c assms(2) show ?thesis by (auto split: if_splits simp: Suc_le_eq)
    next
      case False
      with o assms(2) show ?thesis by simp
    qed
  qed
  with r show ?thesis by blast
qed

lemma run_keeps_cap:
  "wf_store s \<Longrightarrow> \<forall>d. length (device_accounts s d) \<le> 3 \<Longrightarrow>
   \<exists>s'. run s calls = Inr s' \<and> wf_store s' \<and> (\<forall>d. length (device_accounts s' d) \<le> 3)"
proof (induction calls arbitrary: s)
  case Nil
  then show ?case by simp
next
  case (Cons c calls)
  obtain now args where c: "c = (now, args)" by (cases c)
  from saveAccount_keeps_cap[OF Cons.prems, of now args] obtain s1 where
    s1: "saveAccount now s args = Inr s1" "wf_store s1" "\<forall>d. length (device_accounts s1 d) \<le> 3"
    by blast
  from Cons.IH[OF s1(2,3)] s1(1) show ?case by (simp add: c)
qed

lemma run_other_devices:
  "wf_store s \<Longrightarrow> \<forall>c\<in>set calls. arg_deviceId (snd c) \<noteq> d \<Longrightarrow>
   \<exists>s'. run s calls = Inr s' \<and> wf_store s' \<and> device_accounts s' d = device_accounts s d"
proof (induction calls arbitrary: s)
  case Nil
  then show ?case by simp
next
  case (Cons c calls)
  obtain now args where c: "c = (now, args)" by (cases c)
  with Cons.prems(2) have ne: "d \<noteq> arg_deviceId args" by auto
  from saveAccount_device_accounts[OF Cons.prems(1), of now args] ne obtain s1 where
    s1: "saveAccount now s args = Inr s1" "wf_store s1"
      "device_accounts s1 d = device_accounts s d" by blast
  from Cons.prems(2) have "\<forall>c\<in>set calls. arg_deviceId (snd c) \<noteq> d" by simp
  from Cons.IH[OF s1(2) this] s1(1,3) show ?case by (simp add: c)
qed


lemma wf_over_store: "wf_store over_store"
  by code_simp

lemma evictOldest_frame:
  "evictOldest accounts s = Inr s1 \<Longrightarrow> users s1 = users s \<and> nextId s1 = nextId s"
  by (auto simp: evictOldest_def split: if_splits sum.splits)

lemma upsertUser_users:
  "users (upsertUser now args t) =
     (case find (\<lambda>u. user_username u = arg_username args) (users t) of
        Some usr \<Rightarrow> patchUser (user_id usr) (refreshUser now args) (users t)
      | None \<Rightarrow> users t @ [newUser (nextId t) now args])"
  by (simp add: upsertUser_def split: option.splits)

lemma patchUser_other:
  "\<forall>r\<in>set tbl. user_id r \<noteq> i \<Longrightarrow> patchUser i f tbl = tbl"
  by (induction tbl) (auto simp: patchUser_def)

lemma patchUser_split:
  "distinct (map user_id (pre @ u # post)) \<Longrightarrow>
   patchUser (user_id u) f (pre @ u # post) = pre @ f u # post"
proof -
  assume d: "distinct (map user_id (pre @ u # post))"
  then have "\<forall>r\<in>set pre. user_id r \<noteq> user_id u" "\<forall>r\<in>set post. user_id r \<noteq> user_id u"
    by (auto simp: image_iff)
  then have "patchUser (user_id u) f pre = pre" "patchUser (user_id u) f post = post"
    by (simp_all add: patchUser_other)
  then show ?thesis unfolding patchUser_def by simp
qed

text \<open>The users table after a call with a new pair.\<close>

lemma saveAccount_new_users:
  assumes new: "find (\<lambda>r. deviceId r = arg_deviceId args \<and> username r = arg_username args)
                (savedAccounts s) = None"
  shows "\<exists>s'. saveAccount now s args = Inr s' \<and>
     (\<exists>tbl. savedAccounts s' = tbl @ [newAccount (nextId s) now args]) \<and>
     users s' =
       (case find (\<lambda>u. user_username u = arg_username args) (users s) of
          Some usr \<Rightarrow> patchUser (user_id usr) (refreshUser now args) (users s)
        | None \<Rightarrow> users s @ [newUser (Suc (nextId s)) now args])"
proof -
  from saveAccount_returns[of now s args] obtain s' where r: "saveAccount now s args = Inr s'"
    by blast
  with saveAccount_new[OF new, of now] obtain s1 where
    e: "evictOldest (device_accounts s (arg_deviceId args)) s = Inr s1" and
    s': "s' = upsertUser now args (insertSaved now args s1)"
    by (auto split: sum.splits)
  from evictOldest_frame[OF e] have f: "users s1 = users s" "nextId s1 = nextId s" by simp_all
  have "savedAccounts s' = savedAccounts s1 @ [newAccount (nextId s) now args]"
    by (simp add: s' insertSaved_def f)
  moreover have "users s' =
       (case find (\<lambda>u. user_username u = arg_username args) (users s) of
          Some usr \<Rightarrow> patchUser (user_id usr) (refreshUser now args) (users s)
        | None \<Rightarrow> users s @ [newUser (Suc (nextId s)) now args])"
    by (simp add: s' upsertUser_users f split: option.splits)
  ultimately show ?thesis using r by blast
qed

text \<open>The documents a call removes: those whose identifier is gone afterwards.\<close>

lemma saveAccount_removed:
  assumes wf: "wf_store s"
  shows "\<exists>s'. saveAccount now s args = Inr s' \<and>
    length (filter (\<lambda>r. sa_id r \<notin> set (map sa_id (savedAccounts s'))) (savedAccounts s)) \<le> 1"
proof -
  let ?d = "arg_deviceId args"
  let ?new = "\<forall>r\<in>set (savedAccounts s).
             \<not> (deviceId r = arg_deviceId args \<and> username r = arg_username args)"
  from saveAccount_shapes[OF wf, of now args] obtain s' where
    r: "saveAccount now s args = Inr s'" and
    sh: "(\<exists>pre e post. savedAccounts s = pre @ e # post \<and>
        deviceId e = ?d \<and> username e = arg_username args \<and>
        (\<forall>r\<in>set pre. \<not> (deviceId r = ?d \<and> username r = arg_username args)) \<and>
        savedAccounts s' = pre @ refresh now args e # post \<and>
        users s' = users s \<and> nextId s' = nextId s) \<or>
     (?new \<and> length (device_accounts s ?d) < 3 \<and>
      savedAccounts s' = savedAccounts s @ [newAccount (nextId s) now args]) \<or>
     (?new \<and> 3 \<le> length (device_accounts s ?d) \<and>
      (\<exists>tpre v tpost. savedAccounts s = tpre @ v # tpost \<and> deviceId v = ?d \<and>
         (\<forall>r\<in>set tpre. deviceId r = ?d \<longrightarrow> lastUsed v < lastUsed r) \<and>
         (\<forall>r\<in>set tpost. deviceId r = ?d \<longrightarrow> lastUsed v \<le> lastUsed r) \<and>
         savedAccounts s' = tpre @ tpost @ [newAccount (nextId s) now args]))"
    by blast
  have "length (filter (\<lambda>r. sa_id r \<notin> set (map sa_id (savedAccounts s'))) (savedAccounts s)) \<le> 1"
    using sh
  proof (elim disjE exE conjE)
    fix pre e post
    assume a: "savedAccounts s = pre @ e # post"
      "savedAccounts s' = pre @ refresh now args e # post"
    have "sa_id (refresh now args e) = sa_id e" by (simp add: refresh_def)
    with a have "filter (\<lambda>r. sa_id r \<notin> set (map sa_id (savedAccounts s'))) (savedAccounts s) = []"
      by (auto simp: filter_empty_conv)
    then show ?thesis by simp
  next
    assume a: "savedAccounts s' = savedAccounts s @ [newAccount (nextId s) now args]"
    have "filter (\<lambda>r. sa_id r \<notin> set (map sa_id (savedAccounts s'))) (savedAccounts s) = []"
      unfolding a by (auto simp: filter_empty_conv)
    then show ?thesis by simp
  next
    fix tpre v tpost
    assume a: "savedAccounts s = tpre @ v # tpost"
      "savedAccounts s' = tpre @ tpost @ [newAccount (nextId s) now args]"
    let ?P = "\<lambda>r. sa_id r \<notin> set (map sa_id (savedAccounts s'))"
    have "filter ?P tpre = []" "filter ?P tpost = []"
      unfolding a by (auto simp: filter_empty_conv)
    then have "length (filter ?P (tpre @ v # tpost)) \<le> 1" by simp
    then show ?thesis unfolding a(1) .
  qed
  with r show ?thesis by blast
qed

lemma sorted_ids_listing:
  assumes "sorted_wrt (<) (map sa_id tbl)"
  shows "sorted_wrt (\<lambda>a b. sa_id b < sa_id a) (rev (filter P tbl))"
proof -
  from assms have "sorted_wrt (\<lambda>a b. sa_id a < sa_id b) tbl" by (simp add: sorted_wrt_map)
  then have "sorted_wrt (\<lambda>a b. sa_id a < sa_id b) (filter P tbl)" by (rule sorted_wrt_filter)
  then show ?thesis by (simp add: sorted_wrt_rev)
qed

lemma sorted_wrt_take_drop:
  assumes "sorted_wrt R xs" "x \<in> set (take n xs)" "y \<in> set xs" "y \<notin> set (take n xs)"
  shows "R x y"
proof -
  from assms(3,4) have "y \<in> set (drop n xs)"
    by (metis Un_iff append_take_drop_id set_append)
  moreover from assms(1) have "sorted_wrt R (take n xs @ drop n xs)" by simp
  ultimately show ?thesis using assms(2) unfolding sorted_wrt_append by blast
qed

section \<open>The claims\<close>

text \<open>
  C1. Starting from the empty store, after any sequence of \<open>saveAccount\<close> calls every
  call has returned, and for every deviceId the number of \<open>savedAccounts\<close> records with
  that deviceId, which is also the count \<open>getAccountCount\<close> reports, is at most 3.
\<close>

theorem cap_after_any_sequence:
  "\<exists>s'. run empty_store calls = Inr s' \<and>
     (\<forall>d. length (filter (\<lambda>r. deviceId r = d) (savedAccounts s')) \<le> 3 \<and>
          count (fst (getAccountCount s' d)) \<le> 3)"
proof -
  have "\<forall>d. length (device_accounts empty_store d) \<le> 3"
    by (simp add: device_accounts_def empty_store_def)
  from run_keeps_cap[OF wf_empty_store this, of calls] obtain s' where
    "run empty_store calls = Inr s'" "\<forall>d. length (device_accounts s' d) \<le> 3" by blast
  then show ?thesis by (auto simp: device_accounts_def getAccountCount_def)
qed

theorem cap_after_any_sequence_witness:
  "\<exists>s'. run empty_store resave_bob = Inr s' \<and>
     (\<forall>d. length (filter (\<lambda>r. deviceId r = d) (savedAccounts s')) \<le> 3 \<and>
          count (fst (getAccountCount s' d)) \<le> 3)"
  by (rule cap_after_any_sequence)


text \<open>
  C9. A call with deviceId \<open>d\<close> leaves the saved accounts of every other device \<open>d'\<close>
  as they were: the same records, in the same order.
\<close>

theorem other_devices_untouched:
  assumes "wf_store s" and "d' \<noteq> arg_deviceId args"
  shows "\<exists>s'. saveAccount now s args = Inr s' \<and>
     filter (\<lambda>r. deviceId r = d') (savedAccounts s') =
     filter (\<lambda>r. deviceId r = d') (savedAccounts s)"
proof -
  from saveAccount_device_accounts[OF assms(1), of now args] assms(2) obtain s' where
    "saveAccount now s args = Inr s'" "device_accounts s' d' = device_accounts s d'" by blast
  then show ?thesis by (auto simp: device_accounts_def)
qed

theorem other_devices_untouched_witness:
  "wf_store mixed_store \<and> ''D2'' \<noteq> arg_deviceId (acct ''D1'' ''dave'' ''#000000'') \<and>
   (\<exists>s'. saveAccount 5 mixed_store (acct ''D1'' ''dave'' ''#000000'') = Inr s' \<and>
     filter (\<lambda>r. deviceId r = ''D2'') (savedAccounts s') =
     filter (\<lambda>r. deviceId r = ''D2'') (savedAccounts mixed_store))"
proof -
  have a: "wf_store mixed_store" by (rule wf_mixed_store)
  have b: "''D2'' \<noteq> arg_deviceId (acct ''D1'' ''dave'' ''#000000'')" by (simp add: acct_def)
  from other_devices_untouched[OF a b] a b show ?thesis by blast
qed

text \<open>
  C6. \<open>getAccountCount\<close> hands the store back as it received it and returns
  \<open>{count: n, maxAccounts: 3}\<close>, \<open>n\<close> the number of saved accounts of the device; for a
  device that no call has saved an account for, the count is 0.
\<close>

theorem getAccountCount_pure_count:
  "getAccountCount s d =
     (\<lparr>count = length (filter (\<lambda>r. deviceId r = d) (savedAccounts s)), maxAccounts = 3\<rparr>, s) \<and>
   ((\<forall>c\<in>set calls. arg_deviceId (snd c) \<noteq> d) \<longrightarrow>
      (\<exists>s'. run empty_store calls = Inr s' \<and>
            getAccountCount s' d = (\<lparr>count = 0, maxAccounts = 3\<rparr>, s'))) \<and>
   count_after three_saves ''D2'' = Inr \<lparr>count = 0, maxAccounts = 3\<rparr>"
proof (intro conjI impI)
  show "getAccountCount s d =
     (\<lparr>count = length (filter (\<lambda>r. deviceId r = d) (savedAccounts s)), maxAccounts = 3\<rparr>, s)"
    by (simp add: getAccountCount_def)
next
  assume "\<forall>c\<in>set calls. arg_deviceId (snd c) \<noteq> d"
  from run_other_devices[OF wf_empty_store this] obtain s' where
    "run empty_store calls = Inr s'" "device_accounts s' d = device_accounts empty_store d"
    by blast
  then show "\<exists>s'. run empty_store calls = Inr s' \<and>
            getAccountCount s' d = (\<lparr>count = 0, maxAccounts = 3\<rparr>, s')"
    by (simp add: getAccountCount_def device_accounts_def empty_store_def)
next
  show "count_after three_saves ''D2'' = Inr \<lparr>count = 0, maxAccounts = 3\<rparr>"
    by code_simp
qed

theorem getAccountCount_pure_count_witness:
  "list_all (\<lambda>c. arg_deviceId (snd c) \<noteq> ''D2'') three_saves \<and>
   (\<exists>s'. run empty_store three_saves = Inr s' \<and>
         getAccountCount s' ''D2'' = (\<lparr>count = 0, maxAccounts = 3\<rparr>, s'))"
proof -
  have a: "\<forall>c\<in>set three_saves. arg_deviceId (snd c) \<noteq> ''D2''"
    by (simp add: three_saves_def acct_def)
  have b: "list_all (\<lambda>c. arg_deviceId (snd c) \<noteq> ''D2'') three_saves"
    by (simp add: three_saves_def acct_def)
  from getAccountCount_pure_count[of mixed_store "''D2''" three_saves] a b show ?thesis by blast
qed

text \<open>
  C5. A call with a (deviceId, username) pair that is already saved returns, leaves the
  number of saved accounts of every device unchanged and inserts or deletes no record (the
  identifiers in the table are the same); the first record with that pair has its color,
  status, avatar and preferences overwritten and its lastUsed set to the current time, and
  every other record stays as it was.
\<close>

theorem resave_existing_pair:
  assumes "\<exists>r\<in>set (savedAccounts s).
             deviceId r = arg_deviceId args \<and> username r = arg_username args"
  shows "\<exists>s'. saveAccount now s args = Inr s' \<and>
     (\<forall>d. length (filter (\<lambda>r. deviceId r = d) (savedAccounts s')) =
          length (filter (\<lambda>r. deviceId r = d) (savedAccounts s))) \<and>
     map sa_id (savedAccounts s') = map sa_id (savedAccounts s) \<and>
     (wf_store s \<longrightarrow>
        (\<exists>pre e post. savedAccounts s = pre @ e # post \<and>
           deviceId e = arg_deviceId args \<and> username e = arg_username args \<and>
           (\<forall>r\<in>set pre. \<not> (deviceId r = arg_deviceId args \<and> username r = arg_username args)) \<and>
           savedAccounts s' =
             pre @ e\<lparr>color := arg_color args, status := arg_status args,
                     avatar := arg_avatar args, preferences := arg_preferences args,
                     lastUsed := now\<rparr> # post))"
proof -
  let ?P = "\<lambda>r. deviceId r = arg_deviceId args \<and> username r = arg_username args"
  from assms have "find ?P (savedAccounts s) \<noteq> None" by (simp add: find_None_iff2)
  then obtain e where e: "find ?P (savedAccounts s) = Some e" by blast
  let ?s' = "s\<lparr>savedAccounts := patchSaved (sa_id e) (refresh now args) (savedAccounts s)\<rparr>"
  have r: "saveAccount now s args = Inr ?s'" using e by (rule saveAccount_existing)
  have c: "\<forall>d. length (filter (\<lambda>r. deviceId r = d) (savedAccounts ?s')) =
          length (filter (\<lambda>r. deviceId r = d) (savedAccounts s))"
    by (simp add: count_patchSaved)
  have i: "map sa_id (savedAccounts ?s') = map sa_id (savedAccounts s)"
    by (simp add: map_sa_id_patchSaved)
  have w: "wf_store s \<longrightarrow>
        (\<exists>pre e post. savedAccounts s = pre @ e # post \<and>
           deviceId e = arg_deviceId args \<and> username e = arg_username args \<and>
           (\<forall>r\<in>set pre. \<not> (deviceId r = arg_deviceId args \<and> username r = arg_username args)) \<and>
           savedAccounts ?s' =
             pre @ e\<lparr>color := arg_color args, status := arg_status args,
                     avatar := arg_avatar args, preferences := arg_preferences args,
                     lastUsed := now\<rparr> # post)"
  proof
    assume wf: "wf_store s"
    from find_Some_split[OF e] obtain pre post where
      sp: "savedAccounts s = pre @ e # post" and pe: "?P e" and np: "\<forall>r\<in>set pre. \<not> ?P r"
      by blast
    from wf have "distinct (map sa_id (pre @ e # post))" using wf_store_distinct sp by metis
    then have "patchSaved (sa_id e) (refresh now args) (pre @ e # post)
               = pre @ refresh now args e # post" by (rule patchSaved_split)
    then have "savedAccounts ?s' =
             pre @ e\<lparr>color := arg_color args, status := arg_status args,
                     avatar := arg_avatar args, preferences := arg_preferences args,
                     lastUsed := now\<rparr> # post"
      by (simp add: sp refresh_def)
    with sp pe np show "\<exists>pre e post. savedAccounts s = pre @ e # post \<and>
           deviceId e = arg_deviceId args \<and> username e = arg_username args \<and>
           (\<forall>r\<in>set pre. \<not> (deviceId r = arg_deviceId args \<and> username r = arg_username args)) \<and>
           savedAccounts ?s' =
             pre @ e\<lparr>color := arg_color args, status := arg_status args,
                     avatar := arg_avatar args, preferences := arg_preferences args,
                     lastUsed := now\<rparr> # post" by blast
  qed
  from r c i w show ?thesis by blast
qed

theorem resave_existing_pair_witness:
  "(\<exists>r\<in>set (savedAccounts mixed_store).
      deviceId r = arg_deviceId (acct ''D1'' ''bob'' ''#ff0000'') \<and>
      username r = arg_username (acct ''D1'' ''bob'' ''#ff0000'')) \<and>
   wf_store mixed_store \<and>
   (\<exists>s'. saveAccount 5 mixed_store (acct ''D1'' ''bob'' ''#ff0000'') = Inr s' \<and>
      (\<forall>d. length (filter (\<lambda>r. deviceId r = d) (savedAccounts s')) =
           length (filter (\<lambda>r. deviceId r = d) (savedAccounts mixed_store))) \<and>
      map sa_id (savedAccounts s') = map sa_id (savedAccounts mixed_store))"
proof -
  have a: "\<exists>r\<in>set (savedAccounts mixed_store).
      deviceId r = arg_deviceId (acct ''D1'' ''bob'' ''#ff0000'') \<and>
      username r = arg_username (acct ''D1'' ''bob'' ''#ff0000'')"
    by (simp add: mixed_store_def newAccount_def acct_def)
  from resave_existing_pair[OF a, of 5] a wf_mixed_store show ?thesis by blast
qed


text \<open>
  C3. When the (deviceId, username) pair is not in the store and the device already has 3
  or more saved accounts, the call returns and removes exactly one record \<open>v\<close> of that
  device: its lastUsed is the least among the device's records, those before it in the table
  being strictly later (so the first such record is taken); the rest of the table is kept
  in order and the new record is appended. In the scenario, after alice, bob and carol at
  times 1, 2, 3 the device has 3 accounts, and saving dave at time 4 evicts alice.
\<close>

theorem evicts_least_recently_used:
  assumes "wf_store s"
    and "\<forall>r\<in>set (savedAccounts s).
           \<not> (deviceId r = arg_deviceId args \<and> username r = arg_username args)"
    and "3 \<le> length (filter (\<lambda>r. deviceId r = arg_deviceId args) (savedAccounts s))"
  shows "(\<exists>s' tpre v tpost. saveAccount now s args = Inr s' \<and>
     savedAccounts s = tpre @ v # tpost \<and> deviceId v = arg_deviceId args \<and>
     (\<forall>r\<in>set tpre. deviceId r = arg_deviceId args \<longrightarrow> lastUsed v < lastUsed r) \<and>
     (\<forall>r\<in>set tpost. deviceId r = arg_deviceId args \<longrightarrow> lastUsed v \<le> lastUsed r) \<and>
     v \<notin> set (savedAccounts s') \<and>
     savedAccounts s' = tpre @ tpost @ [newAccount (nextId s) now args]) \<and>
   count_after three_saves ''D1'' = Inr \<lparr>count = 3, maxAccounts = 3\<rparr> \<and>
   map_sum id (map username) (list_after four_saves ''D1'') = Inr [''dave'', ''carol'', ''bob'']"
proof (intro conjI)
  let ?d = "arg_deviceId args"
  let ?new = "\<forall>r\<in>set (savedAccounts s).
             \<not> (deviceId r = arg_deviceId args \<and> username r = arg_username args)"
  from assms(3) have full: "\<not> length (device_accounts s ?d) < 3"
    by (simp add: device_accounts_def)
  from saveAccount_shapes[OF assms(1), of now args] obtain s' where
    r: "saveAccount now s args = Inr s'" and
    sh: "(\<exists>pre e post. savedAccounts s = pre @ e # post \<and>
        deviceId e = ?d \<and> username e = arg_username args \<and>
        (\<forall>r\<in>set pre. \<not> (deviceId r = ?d \<and> username r = arg_username args)) \<and>
        savedAccounts s' = pre @ refresh now args e # post \<and>
        users s' = users s \<and> nextId s' = nextId s) \<or>
     (?new \<and> length (device_accounts s ?d) < 3 \<and>
      savedAccounts s' = savedAccounts s @ [newAccount (nextId s) now args]) \<or>
     (?new \<and> 3 \<le> length (device_accounts s ?d) \<and>
      (\<exists>tpre v tpost. savedAccounts s = tpre @ v # tpost \<and> deviceId v = ?d \<and>
         (\<forall>r\<in>set tpre. deviceId r = ?d \<longrightarrow> lastUsed v < lastUsed r) \<and>
         (\<forall>r\<in>set tpost. deviceId r = ?d \<longrightarrow> lastUsed v \<le> lastUsed r) \<and>
         savedAccounts s' = tpre @ tpost @ [newAccount (nextId s) now args]))"
    by blast
  have no_existing: "\<not> (\<exists>pre e post. savedAccounts s = pre @ e # post \<and>
        deviceId e = ?d \<and> username e = arg_username args)"
    using assms(2) by auto
  from sh full no_existing obtain tpre v tpost where
    t: "savedAccounts s = tpre @ v # tpost" "deviceId v = ?d"
      "\<forall>r\<in>set tpre. deviceId r = ?d \<longrightarrow> lastUsed v < lastUsed r"
      "\<forall>r\<in>set tpost. deviceId r = ?d \<longrightarrow> lastUsed v \<le> lastUsed r"
      "savedAccounts s' = tpre @ tpost @ [newAccount (nextId s) now args]"
    by blast
  from assms(1) have d: "distinct (map sa_id (tpre @ v # tpost))"
    using wf_store_distinct t(1) by metis
  from assms(1) have "sa_id v < nextId s"
    unfolding wf_store_def t(1) by simp
  then have "v \<noteq> newAccount (nextId s) now args" by (auto simp: newAccount_def)
  moreover from d have "v \<notin> set tpre" "v \<notin> set tpost" by auto
  ultimately have "v \<notin> set (savedAccounts s')" unfolding t(5) by simp
  with r t show "\<exists>s' tpre v tpost. saveAccount now s args = Inr s' \<and>
     savedAccounts s = tpre @ v # tpost \<and> deviceId v = arg_deviceId args \<and>
     (\<forall>r\<in>set tpre. deviceId r = arg_deviceId args \<longrightarrow> lastUsed v < lastUsed r) \<and>
     (\<forall>r\<in>set tpost. deviceId r = arg_deviceId args \<longrightarrow> lastUsed v \<le> lastUsed r) \<and>
     v \<notin> set (savedAccounts s') \<and>
     savedAccounts s' = tpre @ tpost @ [newAccount (nextId s) now args]" by blast
next
  show "count_after three_saves ''D1'' = Inr \<lparr>count = 3, maxAccounts = 3\<rparr>"
    by code_simp
next
  show "map_sum id (map username) (list_after four_saves ''D1'')
          = Inr [''dave'', ''carol'', ''bob'']"
    by code_simp
qed

theorem evicts_least_recently_used_witness:
  "wf_store mixed_store \<and>
   find (\<lambda>r. deviceId r = arg_deviceId (acct ''D1'' ''dave'' ''#000000'') \<and>
             username r = arg_username (acct ''D1'' ''dave'' ''#000000''))
     (savedAccounts mixed_store) = None \<and>
   3 \<le> length (filter (\<lambda>r. deviceId r = arg_deviceId (acct ''D1'' ''dave'' ''#000000''))
                (savedAccounts mixed_store)) \<and>
   (\<exists>s' tpre v tpost. saveAccount 5 mixed_store (acct ''D1'' ''dave'' ''#000000'') = Inr s' \<and>
     savedAccounts mixed_store = tpre @ v # tpost \<and>
     deviceId v = arg_deviceId (acct ''D1'' ''dave'' ''#000000'') \<and>
     v \<notin> set (savedAccounts s') \<and>
     savedAccounts s' =
       tpre @ tpost @ [newAccount (nextId mixed_store) 5 (acct ''D1'' ''dave'' ''#000000'')])"
proof -
  have a: "wf_store mixed_store" by (rule wf_mixed_store)
  have b: "\<forall>r\<in>set (savedAccounts mixed_store).
      \<not> (deviceId r = arg_deviceId (acct ''D1'' ''dave'' ''#000000'') \<and>
         username r = arg_username (acct ''D1'' ''dave'' ''#000000''))"
    by (simp add: mixed_store_def newAccount_def acct_def)
  have c: "3 \<le> length (filter (\<lambda>r. deviceId r = arg_deviceId (acct ''D1'' ''dave'' ''#000000''))
                (savedAccounts mixed_store))"
    by (simp add: mixed_store_def newAccount_def acct_def)
  have b': "find (\<lambda>r. deviceId r = arg_deviceId (acct ''D1'' ''dave'' ''#000000'') \<and>
             username r = arg_username (acct ''D1'' ''dave'' ''#000000''))
     (savedAccounts mixed_store) = None"
    using b by (simp only: find_None_iff2)
  from evicts_least_recently_used[OF a b c, of 5] a b' c show ?thesis by blast
qed

text \<open>
  C10. A call removes at most one saved account. So a device that holds more than 3
  accounts still holds more than 3 after any call, and after a call with a new username
  for it exactly as many as before; and a store in which every device holds at most 3
  is left in such a state.
\<close>

theorem deletes_at_most_one:
  assumes "wf_store s"
  shows "\<exists>s'. saveAccount now s args = Inr s' \<and>
     length (filter (\<lambda>r. sa_id r \<notin> set (map sa_id (savedAccounts s'))) (savedAccounts s)) \<le> 1 \<and>
     (\<forall>d. 3 < length (filter (\<lambda>r. deviceId r = d) (savedAccounts s)) \<longrightarrow>
          3 < length (filter (\<lambda>r. deviceId r = d) (savedAccounts s'))) \<and>
     ((\<forall>r\<in>set (savedAccounts s).
          \<not> (deviceId r = arg_deviceId args \<and> username r = arg_username args)) \<and>
      3 < length (filter (\<lambda>r. deviceId r = arg_deviceId args) (savedAccounts s)) \<longrightarrow>
        length (filter (\<lambda>r. deviceId r = arg_deviceId args) (savedAccounts s')) =
        length (filter (\<lambda>r. deviceId r = arg_deviceId args) (savedAccounts s))) \<and>
     ((\<forall>d. length (filter (\<lambda>r. deviceId r = d) (savedAccounts s)) \<le> 3) \<longrightarrow>
      (\<forall>d. length (filter (\<lambda>r. deviceId r = d) (savedAccounts s')) \<le> 3))"
proof -
  from saveAccount_removed[OF assms, of now args] obtain s' where
    r: "saveAccount now s args = Inr s'" and
    one: "length (filter (\<lambda>r. sa_id r \<notin> set (map sa_id (savedAccounts s'))) (savedAccounts s)) \<le> 1"
    by blast
  from saveAccount_device_accounts[OF assms, of now args] r have
    o: "\<forall>d. d \<noteq> arg_deviceId args \<longrightarrow> device_accounts s' d = device_accounts s d" and
    c: "length (device_accounts s' (arg_deviceId args)) =
      (if (\<forall>r\<in>set (savedAccounts s).
             \<not> (deviceId r = arg_deviceId args \<and> username r = arg_username args)) \<and>
          length (device_accounts s (arg_deviceId args)) < 3
       then Suc (length (device_accounts s (arg_deviceId args)))
       else length (device_accounts s (arg_deviceId args)))" by auto
  have ge: "\<forall>d. length (device_accounts s d) \<le> length (device_accounts s' d)"
  proof
    fix d show "length (device_accounts s d) \<le> length (device_accounts s' d)"
      using o c by (cases "d = arg_deviceId args") (auto split: if_splits)
  qed
  have over: "\<forall>d. 3 < length (device_accounts s d) \<longrightarrow> 3 < length (device_accounts s' d)"
    using ge by (meson less_le_trans)
  have same: "3 < length (device_accounts s (arg_deviceId args)) \<longrightarrow>
        length (device_accounts s' (arg_deviceId args)) =
        length (device_accounts s (arg_deviceId args))"
    using c by (auto split: if_splits)
  have keep: "(\<forall>d. length (device_accounts s d) \<le> 3) \<longrightarrow>
      (\<forall>d. length (device_accounts s' d) \<le> 3)"
  proof
    assume "\<forall>d. length (device_accounts s d) \<le> 3"
    from saveAccount_keeps_cap[OF assms this, of now args] r
    show "\<forall>d. length (device_accounts s' d) \<le> 3" by auto
  qed
  from r one over same keep show ?thesis
    unfolding device_accounts_def by blast
qed

theorem deletes_at_most_one_witness:
  "wf_store over_store \<and>
   find (\<lambda>r. deviceId r = arg_deviceId (acct ''D1'' ''erin'' ''#000000'') \<and>
             username r = arg_username (acct ''D1'' ''erin'' ''#000000''))
     (savedAccounts over_store) = None \<and>
   3 < length (filter (\<lambda>r. deviceId r = ''D1'') (savedAccounts over_store)) \<and>
   (\<exists>s'. saveAccount 6 over_store (acct ''D1'' ''erin'' ''#000000'') = Inr s' \<and>
      length (filter (\<lambda>r. sa_id r \<notin> set (map sa_id (savedAccounts s')))
                (savedAccounts over_store)) \<le> 1 \<and>
      3 < length (filter (\<lambda>r. deviceId r = ''D1'') (savedAccounts s')))"
proof -
  have a: "wf_store over_store" by (rule wf_over_store)
  have b: "\<forall>r\<in>set (savedAccounts over_store).
      \<not> (deviceId r = arg_deviceId (acct ''D1'' ''erin'' ''#000000'') \<and>
         username r = arg_username (acct ''D1'' ''erin'' ''#000000''))"
    by (simp add: over_store_def mixed_store_def newAccount_def acct_def)
  have c: "3 < length (filter (\<lambda>r. deviceId r = ''D1'') (savedAccounts over_store))"
    by (simp add: over_store_def mixed_store_def newAccount_def acct_def)
  have b': "find (\<lambda>r. deviceId r = arg_deviceId (acct ''D1'' ''erin'' ''#000000'') \<and>
             username r = arg_username (acct ''D1'' ''erin'' ''#000000''))
     (savedAccounts over_store) = None"
    using b by (simp only: find_None_iff2)
  from deletes_at_most_one[OF a, of 6 "acct ''D1'' ''erin'' ''#000000''"] a b' c
  show ?thesis by blast
qed


text \<open>
  C8. A call with a pair that is already saved leaves the users table as it is. A call
  with a new pair appends the new saved account and writes the users table: the first
  user record with that username gets color, status, avatar, preferences, lastSeen,
  isOnline = true and lastActivity overwritten, the other records staying as they were;
  if there is none, such a record is appended.
\<close>

theorem new_pair_writes_users:
  assumes "wf_store s"
  shows "\<exists>s'. saveAccount now s args = Inr s' \<and>
    ((\<exists>r\<in>set (savedAccounts s).
         deviceId r = arg_deviceId args \<and> username r = arg_username args) \<longrightarrow>
       users s' = users s) \<and>
    ((\<forall>r\<in>set (savedAccounts s).
         \<not> (deviceId r = arg_deviceId args \<and> username r = arg_username args)) \<longrightarrow>
       (\<exists>tbl. savedAccounts s' = tbl @ [newAccount (nextId s) now args]) \<and>
       ((\<exists>pre u post. users s = pre @ u # post \<and> user_username u = arg_username args \<and>
            (\<forall>x\<in>set pre. user_username x \<noteq> arg_username args) \<and>
            users s' =
              pre @ u\<lparr>user_color := arg_color args, user_status := arg_status args,
                      user_avatar := arg_avatar args, user_preferences := arg_preferences args,
                      lastSeen := Some now, isOnline := Some True,
                      lastActivity := Some now\<rparr> # post) \<or>
        ((\<forall>x\<in>set (users s). user_username x \<noteq> arg_username args) \<and>
         users s' = users s @
           [\<lparr>user_id = Suc (nextId s), user_username = arg_username args,
             user_color = arg_color args, user_status = arg_status args,
             user_avatar = arg_avatar args, user_preferences = arg_preferences args,
             lastSeen = Some now, isOnline = Some True, lastActivity = Some now\<rparr>])))"
proof (cases "find (\<lambda>r. deviceId r = arg_deviceId args \<and> username r = arg_username args)
                (savedAccounts s)")
  case (Some e)
  then have ex: "\<not> (\<forall>r\<in>set (savedAccounts s).
         \<not> (deviceId r = arg_deviceId args \<and> username r = arg_username args))"
    using find_SomeD[OF Some] by blast
  let ?s' = "s\<lparr>savedAccounts := patchSaved (sa_id e) (refresh now args) (savedAccounts s)\<rparr>"
  have "saveAccount now s args = Inr ?s'" using Some by (rule saveAccount_existing)
  moreover have "users ?s' = users s" by simp
  ultimately show ?thesis using ex by blast
next
  case None
  then have new: "\<not> (\<exists>r\<in>set (savedAccounts s).
         deviceId r = arg_deviceId args \<and> username r = arg_username args)"
    by (simp add: find_None_iff2)
  from saveAccount_new_users[OF None, of now] obtain s' where
    r: "saveAccount now s args = Inr s'" and
    t: "\<exists>tbl. savedAccounts s' = tbl @ [newAccount (nextId s) now args]" and
    u: "users s' =
       (case find (\<lambda>u. user_username u = arg_username args) (users s) of
          Some usr \<Rightarrow> patchUser (user_id usr) (refreshUser now args) (users s)
        | None \<Rightarrow> users s @ [newUser (Suc (nextId s)) now args])" by blast
  have w: "(\<exists>pre u post. users s = pre @ u # post \<and> user_username u = arg_username args \<and>
            (\<forall>x\<in>set pre. user_username x \<noteq> arg_username args) \<and>
            users s' =
              pre @ u\<lparr>user_color := arg_color args, user_status := arg_status args,
                      user_avatar := arg_avatar args, user_preferences := arg_preferences args,
                      lastSeen := Some now, isOnline := Some True,
                      lastActivity := Some now\<rparr> # post) \<or>
        ((\<forall>x\<in>set (users s). user_username x \<noteq> arg_username args) \<and>
         users s' = users s @
           [\<lparr>user_id = Suc (nextId s), user_username = arg_username args,
             user_color = arg_color args, user_status = arg_status args,
             user_avatar = arg_avatar args, user_preferences = arg_preferences args,
             lastSeen = Some now, isOnline = Some True, lastActivity = Some now\<rparr>])"
  proof (cases "find (\<lambda>u. user_username u = arg_username args) (users s)")
    case None
    then have "\<forall>x\<in>set (users s). user_username x \<noteq> arg_username args"
      by (simp add: find_None_iff2)
    moreover from u None have "users s' = users s @
           [\<lparr>user_id = Suc (nextId s), user_username = arg_username args,
             user_color = arg_color args, user_status = arg_status args,
             user_avatar = arg_avatar args, user_preferences = arg_preferences args,
             lastSeen = Some now, isOnline = Some True, lastActivity = Some now\<rparr>]"
      by (simp add: newUser_def)
    ultimately show ?thesis by blast
  next
    case (Some usr)
    from find_Some_split[OF Some] obtain pre post where
      sp: "users s = pre @ usr # post" and pu: "user_username usr = arg_username args" and
      np: "\<forall>x\<in>set pre. user_username x \<noteq> arg_username args" by blast
    from assms have "distinct (map user_id (pre @ usr # post))"
      unfolding wf_store_def sp by simp
    then have "patchUser (user_id usr) (refreshUser now args) (pre @ usr # post)
               = pre @ refreshUser now args usr # post" by (rule patchUser_split)
    with u Some sp have "users s' =
              pre @ usr\<lparr>user_color := arg_color args, user_status := arg_status args,
                      user_avatar := arg_avatar args, user_preferences := arg_preferences args,
                      lastSeen := Some now, isOnline := Some True,
                      lastActivity := Some now\<rparr> # post"
      by (simp add: refreshUser_def)
    with sp pu np show ?thesis by blast
  qed
  from r new t w show ?thesis by blast
qed

theorem new_pair_writes_users_witness:
  "wf_store mixed_store \<and>
   find (\<lambda>r. deviceId r = arg_deviceId (acct ''D2'' ''bob'' ''#ff0000'') \<and>
             username r = arg_username (acct ''D2'' ''bob'' ''#ff0000''))
     (savedAccounts mixed_store) = None \<and>
   (\<exists>s'. saveAccount 5 mixed_store (acct ''D2'' ''bob'' ''#ff0000'') = Inr s' \<and>
      (\<exists>tbl. savedAccounts s' =
         tbl @ [newAccount (nextId mixed_store) 5 (acct ''D2'' ''bob'' ''#ff0000'')]))"
proof -
  have a: "wf_store mixed_store" by (rule wf_mixed_store)
  have b: "\<forall>r\<in>set (savedAccounts mixed_store).
      \<not> (deviceId r = arg_deviceId (acct ''D2'' ''bob'' ''#ff0000'') \<and>
         username r = arg_username (acct ''D2'' ''bob'' ''#ff0000''))"
    by (simp add: mixed_store_def newAccount_def acct_def)
  have b': "find (\<lambda>r. deviceId r = arg_deviceId (acct ''D2'' ''bob'' ''#ff0000'') \<and>
             username r = arg_username (acct ''D2'' ''bob'' ''#ff0000''))
     (savedAccounts mixed_store) = None"
    using b by (simp only: find_None_iff2)
  from new_pair_writes_users[OF a, of 5 "acct ''D2'' ''bob'' ''#ff0000''"] a b b'
  show ?thesis by blast
qed

text \<open>
  C2, as the code has it. \<open>getSavedAccounts\<close> hands the store back as it received it and
  returns up to 3 of the device's records, the most recently created first: identifiers
  grow with the time of creation, the result is in descending order of identifier, and
  every record of the device that is left out was created before all those returned.
  Saving a pair again does not move its record: after D1 holds bob, carol and dave and
  saves bob again at time 5 with a new color, the list is dave, carol, bob, with bob's
  color and lastUsed updated.
\<close>

theorem list_newest_created_first:
  "snd (getSavedAccounts s d) = s \<and>
   length (fst (getSavedAccounts s d)) =
     min 3 (length (filter (\<lambda>r. deviceId r = d) (savedAccounts s))) \<and>
   (\<forall>r\<in>set (fst (getSavedAccounts s d)). r \<in> set (savedAccounts s) \<and> deviceId r = d) \<and>
   (wf_store s \<longrightarrow>
      sorted_wrt (\<lambda>a b. sa_id b < sa_id a) (fst (getSavedAccounts s d)) \<and>
      (\<forall>r\<in>set (savedAccounts s). deviceId r = d \<and> r \<notin> set (fst (getSavedAccounts s d)) \<longrightarrow>
         (\<forall>x\<in>set (fst (getSavedAccounts s d)). sa_id r < sa_id x))) \<and>
   map_sum id (map (\<lambda>r. (username r, color r, lastUsed r))) (list_after resave_bob ''D1'') =
     Inr [(''dave'', ''#000000'', 4), (''carol'', ''#000000'', 3), (''bob'', ''#ff0000'', 5)]"
proof -
  let ?D = "filter (\<lambda>r. deviceId r = d) (savedAccounts s)"
  have L: "fst (getSavedAccounts s d) = take 3 (rev ?D)"
    by (simp add: getSavedAccounts_def order_desc_def)
  have 1: "snd (getSavedAccounts s d) = s" by (simp add: getSavedAccounts_def)
  have 2: "length (fst (getSavedAccounts s d)) = min 3 (length ?D)"
    unfolding L by (simp add: min.commute)
  have 3: "\<forall>r\<in>set (fst (getSavedAccounts s d)). r \<in> set (savedAccounts s) \<and> deviceId r = d"
  proof
    fix r assume "r \<in> set (fst (getSavedAccounts s d))"
    then have "r \<in> set (rev ?D)" unfolding L by (rule in_set_takeD)
    then show "r \<in> set (savedAccounts s) \<and> deviceId r = d" by simp
  qed
  have 4: "wf_store s \<longrightarrow>
      sorted_wrt (\<lambda>a b. sa_id b < sa_id a) (fst (getSavedAccounts s d)) \<and>
      (\<forall>r\<in>set (savedAccounts s). deviceId r = d \<and> r \<notin> set (fst (getSavedAccounts s d)) \<longrightarrow>
         (\<forall>x\<in>set (fst (getSavedAccounts s d)). sa_id r < sa_id x))"
  proof
    assume "wf_store s"
    then have "sorted_wrt (<) (map sa_id (savedAccounts s))" by (simp add: wf_store_def)
    then have srt: "sorted_wrt (\<lambda>a b. sa_id b < sa_id a) (rev ?D)" by (rule sorted_ids_listing)
    then have a: "sorted_wrt (\<lambda>a b. sa_id b < sa_id a) (take 3 (rev ?D))"
      by (rule sorted_wrt_take)
    have b: "\<forall>r\<in>set (savedAccounts s). deviceId r = d \<and> r \<notin> set (take 3 (rev ?D)) \<longrightarrow>
         (\<forall>x\<in>set (take 3 (rev ?D)). sa_id r < sa_id x)"
    proof (intro ballI impI)
      fix r x
      assume "r \<in> set (savedAccounts s)" "deviceId r = d \<and> r \<notin> set (take 3 (rev ?D))"
        and x: "x \<in> set (take 3 (rev ?D))"
      then have "r \<in> set (rev ?D)" "r \<notin> set (take 3 (rev ?D))" by simp_all
      from sorted_wrt_take_drop[OF srt x this] show "sa_id r < sa_id x" .
    qed
    from a b show "sorted_wrt (\<lambda>a b. sa_id b < sa_id a) (fst (getSavedAccounts s d)) \<and>
      (\<forall>r\<in>set (savedAccounts s). deviceId r = d \<and> r \<notin> set (fst (getSavedAccounts s d)) \<longrightarrow>
         (\<forall>x\<in>set (fst (getSavedAccounts s d)). sa_id r < sa_id x))" unfolding L by blast
  qed
  have 5: "map_sum id (map (\<lambda>r. (username r, color r, lastUsed r)))
             (list_after resave_bob ''D1'') =
     Inr [(''dave'', ''#000000'', 4), (''carol'', ''#000000'', 3), (''bob'', ''#ff0000'', 5)]"
    by code_simp
  from 1 2 3 4 5 show ?thesis by (intro conjI)
qed

theorem list_newest_created_first_witness:
  "wf_store over_store \<and>
   sorted_wrt (\<lambda>a b. sa_id b < sa_id a) (fst (getSavedAccounts over_store ''D1'')) \<and>
   length (fst (getSavedAccounts over_store ''D1'')) = 3 \<and>
   map sa_id (fst (getSavedAccounts over_store ''D1'')) = [7, 5, 3]"
proof -
  have a: "wf_store over_store" by (rule wf_over_store)
  have b: "map sa_id (fst (getSavedAccounts over_store ''D1'')) = [7, 5, 3]" by code_simp
  have c: "length (fst (getSavedAccounts over_store ''D1'')) = 3" by code_simp
  from list_newest_created_first[of over_store "''D1''"] a b c show ?thesis by blast
qed

text \<open>
  C2 as stated fails: the listing is not by lastUsed. In its scenario it is dave, carol, bob,
  with lastUsed 4, 3, 5, and not bob, dave, carol.
\<close>

theorem list_by_lastUsed_counterexample:
  "map_sum id (map username) (list_after resave_bob ''D1'') \<noteq> Inr [''bob'', ''dave'', ''carol''] \<and>
   map_sum id (map username) (list_after resave_bob ''D1'') = Inr [''dave'', ''carol'', ''bob''] \<and>
   map_sum id (map lastUsed) (list_after resave_bob ''D1'') = Inr [4, 3, 5]"
  by code_simp

text \<open>
  C4, as the code has it. The handler checks neither string: every call, one whose
  deviceId or username is empty included, returns without an error, and afterwards the
  store holds a saved account with that deviceId and username, the fields of the call and
  lastUsed the current time.
\<close>

theorem no_validation_of_empty_strings:
  "\<exists>s'. saveAccount now s args = Inr s' \<and>
     (\<exists>r\<in>set (savedAccounts s').
        deviceId r = arg_deviceId args \<and> username r = arg_username args \<and>
        color r = arg_color args \<and> status r = arg_status args \<and> avatar r = arg_avatar args \<and>
        preferences r = arg_preferences args \<and> lastUsed r = now)"
proof (cases "find (\<lambda>r. deviceId r = arg_deviceId args \<and> username r = arg_username args)
                (savedAccounts s)")
  case (Some e)
  let ?s' = "s\<lparr>savedAccounts := patchSaved (sa_id e) (refresh now args) (savedAccounts s)\<rparr>"
  have r: "saveAccount now s args = Inr ?s'" using Some by (rule saveAccount_existing)
  from find_SomeD[OF Some] have e: "e \<in> set (savedAccounts s)"
    "deviceId e = arg_deviceId args" "username e = arg_username args" by simp_all
  from e(1) have "refresh now args e \<in> set (savedAccounts ?s')"
    by (force simp: patchSaved_def)
  moreover have "deviceId (refresh now args e) = arg_deviceId args"
    "username (refresh now args e) = arg_username args"
    "color (refresh now args e) = arg_color args" "status (refresh now args e) = arg_status args"
    "avatar (refresh now args e) = arg_avatar args"
    "preferences (refresh now args e) = arg_preferences args"
    "lastUsed (refresh now args e) = now"
    using e(2,3) by (simp_all add: refresh_def)
  ultimately show ?thesis using r by blast
next
  case None
  from saveAccount_new_users[OF None, of now] obtain s' tbl where
    r: "saveAccount now s args = Inr s'" and
    t: "savedAccounts s' = tbl @ [newAccount (nextId s) now args]" by blast
  let ?n = "newAccount (nextId s) now args"
  from t have "?n \<in> set (savedAccounts s')" by simp
  moreover have "deviceId ?n = arg_deviceId args" "username ?n = arg_username args"
    "color ?n = arg_color args" "status ?n = arg_status args" "avatar ?n = arg_avatar args"
    "preferences ?n = arg_preferences args" "lastUsed ?n = now"
    by (simp_all add: newAccount_def)
  ultimately show ?thesis using r by blast
qed

theorem no_validation_of_empty_strings_witness:
  "arg_deviceId (acct [] [] ''#000000'') = [] \<and>
   arg_username (acct [] [] ''#000000'') = [] \<and>
   (\<exists>s'. saveAccount 1 empty_store (acct [] [] ''#000000'') = Inr s' \<and>
     (\<exists>r\<in>set (savedAccounts s'). deviceId r = [] \<and> username r = [] \<and> lastUsed r = 1))"
proof -
  have a: "arg_deviceId (acct [] [] ''#000000'') = []"
    "arg_username (acct [] [] ''#000000'') = []" by (simp_all add: acct_def)
  from no_validation_of_empty_strings[of 1 empty_store "acct [] [] ''#000000''"] a
  show ?thesis by auto
qed

text \<open>
  C4 as stated fails: a call with empty deviceId and username on the empty store is not
  rejected, it returns
  a store that holds the new saved account and the new user.
\<close>

theorem empty_strings_accepted_counterexample:
  "saveAccount 1 empty_store (acct [] [] ''#000000'') =
     Inr \<lparr>savedAccounts = [newAccount 0 1 (acct [] [] ''#000000'')],
          users = [newUser 1 1 (acct [] [] ''#000000'')], nextId = 2\<rparr> \<and>
   saveAccount 1 empty_store (acct [] [] ''#000000'') \<noteq> Inr empty_store"
  by code_simp

end
